theory Spec2Isabelle
  imports
    Main
    "HOL-Library.Word"
    "HOL-Library.Sublist"
    "HOL-Library.Multiset"
    "HOL-Library.List_Lexorder"
begin

section \<open>JavaScript values used by the service\<close>

text \<open>
  A JavaScript string is a sequence of UTF-16 code units.  \<^verbatim>\<open>String.fromCharCode(n)\<close>
  converts its argument with ToUint16, which is what \<open>of_nat\<close> into \<^typ>\<open>16 word\<close> does.
  Counts and the requested length are integers (the DTO admits integers only), modelled
  as unbounded \<^typ>\<open>int\<close>.
\<close>

type_synonym jsstring = "16 word list"

type_synonym combo = "jsstring list"

definition fromCharCode :: "nat \<Rightarrow> jsstring" where
  "fromCharCode n = [of_nat n]"

definition js :: "string \<Rightarrow> jsstring" where
  "js s = map (\<lambda>c. of_nat (of_char c)) s"

fun digits :: "nat \<Rightarrow> jsstring" where
  "digits n = (if n < 10 then [of_nat (48 + n)] else digits (n div 10) @ [of_nat (48 + n mod 10)])"

definition toString :: "int \<Rightarrow> jsstring" where
  "toString i = (if i < 0 then js ''-'' @ digits (nat (- i)) else digits (nat i))"

subsection \<open>\<^verbatim>\<open>Map<string, T>\<close>: insertion-ordered, keys unique\<close>

type_synonym 'v jsmap = "(jsstring \<times> 'v) list"

fun map_set :: "'v jsmap \<Rightarrow> jsstring \<Rightarrow> 'v \<Rightarrow> 'v jsmap" where
  "map_set [] k v = [(k, v)]"
| "map_set ((k', v') # m) k v = (if k' = k then (k, v) # m else (k', v') # map_set m k v)"

fun map_get :: "'v jsmap \<Rightarrow> jsstring \<Rightarrow> 'v option" where
  "map_get [] k = None"
| "map_get ((k', v') # m) k = (if k' = k then Some v' else map_get m k)"

definition map_keys :: "'v jsmap \<Rightarrow> jsstring list" where
  "map_keys m = map fst m"

definition map_size :: "'v jsmap \<Rightarrow> nat" where
  "map_size m = length m"

section \<open>CombinationsService\<close>

subsection \<open>expandItems\<close>

fun expandItems_loop :: "int list \<Rightarrow> nat \<Rightarrow> jsstring list jsmap \<Rightarrow> jsstring list jsmap" where
  "expandItems_loop [] codePoint groups = groups"
| "expandItems_loop (count' # rest) codePoint groups =
     (let prefix = fromCharCode codePoint;
          arr = map (\<lambda>i. prefix @ toString i) [1..count']
      in expandItems_loop rest (codePoint + 1) (map_set groups prefix arr))"

definition expandItems :: "int list \<Rightarrow> jsstring list jsmap" where
  "expandItems items = expandItems_loop items 65 []"

subsection \<open>choose\<close>

text \<open>
  The closure \<^verbatim>\<open>backtrack\<close> pushes onto the shared array \<^verbatim>\<open>result\<close>; the array is
  threaded through.  \<open>backtrack_loop\<close> is the \<^verbatim>\<open>for\<close> loop of the closure, from index
  \<open>i\<close> on.  The push and pop of \<^verbatim>\<open>currentPath\<close> around the recursive call leave it as
  it was, so the loop passes \<open>currentPath\<close> on unchanged.  The method \<^verbatim>\<open>choose\<close> is
  called \<open>choose_combos\<close> here, \<open>choose\<close> being the binomial coefficient of HOL.
\<close>

function backtrack :: "'a list \<Rightarrow> int \<Rightarrow> nat \<Rightarrow> 'a list \<Rightarrow> 'a list list \<Rightarrow> 'a list list"
  and backtrack_loop :: "'a list \<Rightarrow> int \<Rightarrow> nat \<Rightarrow> 'a list \<Rightarrow> 'a list list \<Rightarrow> 'a list list"
where
  "backtrack items combinationLength startIndex currentPath result =
     (if int (length currentPath) = combinationLength then result @ [currentPath]
      else backtrack_loop items combinationLength startIndex currentPath result)"
| "backtrack_loop items combinationLength i currentPath result =
     (if i < length items
      then backtrack_loop items combinationLength (i + 1) currentPath
             (backtrack items combinationLength (i + 1) (currentPath @ [items ! i]) result)
      else result)"
  by pat_completeness auto
termination
  by (relation "measure (\<lambda>x. case x of
          Inl (items, k, s, p, r) \<Rightarrow> 2 * (length items - s) + 1
        | Inr (items, k, i, p, r) \<Rightarrow> 2 * (length items - i))") auto

definition choose_combos :: "'a list \<Rightarrow> int \<Rightarrow> 'a list list" where
  "choose_combos items combinationLength = backtrack items combinationLength 0 [] []"

subsection \<open>cartesian\<close>

definition cartesian :: "'a list list \<Rightarrow> 'a list list" where
  "cartesian itemGroups =
     foldl (\<lambda>accumulator currentGroup.
              concat (map (\<lambda>previousCombination.
                             map (\<lambda>item. previousCombination @ [item]) currentGroup)
                          accumulator))
           [[]] itemGroups"

subsection \<open>generateValidCombinations\<close>

datatype error = BadRequestException string | TypeError | DbError string

text \<open>
  \<^verbatim>\<open>prefixSet.map((p) => groups.get(p)!)\<close>: the non-null assertion is a failing lookup in
  the model.  The prefixes are keys of \<open>groups\<close> itself, so it never fails (lemma
  \<open>generateValidCombinations_keys\<close> below).
\<close>

fun generateValidCombinations_loop ::
  "jsstring list jsmap \<Rightarrow> jsstring list list \<Rightarrow> combo list \<Rightarrow> error + combo list" where
  "generateValidCombinations_loop groups [] combos = Inr combos"
| "generateValidCombinations_loop groups (prefixSet # rest) combos =
     (case those (map (map_get groups) prefixSet) of
        None \<Rightarrow> Inl TypeError
      | Some arrays \<Rightarrow> generateValidCombinations_loop groups rest (combos @ cartesian arrays))"

definition generateValidCombinations :: "jsstring list jsmap \<Rightarrow> int \<Rightarrow> error + combo list" where
  "generateValidCombinations groups length' =
     (let prefixes = map_keys groups;
          chosenPrefixCombos = choose_combos prefixes length'
      in generateValidCombinations_loop groups chosenPrefixCombos [])"

section \<open>DatabaseService\<close>

text \<open>
  The connection is an external collaborator.  The model records every call made on the
  pool and the connection in a trace, and takes the collaborator's behaviour as a
  parameter: \<open>rejects d tr c\<close> is the error with which call \<open>c\<close> fails after the calls
  \<open>tr\<close> (\<open>None\<close> when it succeeds), \<open>insertId d tr\<close> the identifier the store assigns to
  a row inserted after \<open>tr\<close>.  A query is recorded with the rows it carries; the third
  column of a combination row, \<^verbatim>\<open>JSON.stringify(c)\<close>, is kept as \<open>c\<close> itself, and the
  \<^verbatim>\<open>idx\<close> column of an item row, \<^verbatim>\<open>parseInt(code.slice(1), 10)\<close>, a function of the
  \<^verbatim>\<open>code\<close> column, is left out.
\<close>

datatype query =
    InsertResponse "int list" int
  | InsertItems "(jsstring \<times> jsstring) list"
  | InsertCombinations "(nat \<times> jsstring \<times> combo) list"

datatype call = GetConnection | BeginTransaction | Query query | Commit | Rollback | Release

record db =
  rejects :: "call list \<Rightarrow> call \<Rightarrow> string option"
  insertId :: "call list \<Rightarrow> nat"

type_synonym 'a io = "call list \<Rightarrow> (error + 'a) \<times> call list"

definition return_io :: "'a \<Rightarrow> 'a io" where
  "return_io x tr = (Inr x, tr)"

definition bind_io :: "'a io \<Rightarrow> ('a \<Rightarrow> 'b io) \<Rightarrow> 'b io" where
  "bind_io m f tr = (case m tr of (Inl e, tr') \<Rightarrow> (Inl e, tr') | (Inr x, tr') \<Rightarrow> f x tr')"

definition call_conn :: "db \<Rightarrow> call \<Rightarrow> unit io" where
  "call_conn d c tr =
     (case rejects d tr c of
        None \<Rightarrow> (Inr (), tr @ [c])
      | Some message \<Rightarrow> (Inl (DbError message), tr @ [c]))"

subsection \<open>withTransaction\<close>

text \<open>
  The \<^verbatim>\<open>try\<close> block is the inner \<open>bind_io\<close> chain; the \<^verbatim>\<open>catch\<close> clause runs on its
  \<open>Inl\<close> branch, and a failing rollback replaces the caught error; the \<^verbatim>\<open>finally\<close>
  clause runs on both, and a failing release replaces the outcome.
\<close>

definition withTransaction :: "db \<Rightarrow> 'a io \<Rightarrow> 'a io" where
  "withTransaction d transactionFunction tr =
     (case call_conn d GetConnection tr of
        (Inl e, tr1) \<Rightarrow> (Inl e, tr1)
      | (Inr _, tr1) \<Rightarrow>
          (let (outcome, tr2) =
                 (case bind_io (call_conn d BeginTransaction) (\<lambda>_.
                       bind_io transactionFunction (\<lambda>result.
                       bind_io (call_conn d Commit) (\<lambda>_.
                       return_io result))) tr1 of
                    (Inr result, tr') \<Rightarrow> (Inr result, tr')
                  | (Inl err, tr') \<Rightarrow>
                      (case call_conn d Rollback tr' of
                         (Inl e', tr'') \<Rightarrow> (Inl e', tr'')
                       | (Inr _, tr'') \<Rightarrow> (Inl err, tr'')))
           in case call_conn d Release tr2 of
                (Inl e, tr3) \<Rightarrow> (Inl e, tr3)
              | (Inr _, tr3) \<Rightarrow> (outcome, tr3)))"

subsection \<open>insertResponse, insertItems, insertCombinations\<close>

definition insertResponse :: "db \<Rightarrow> int list \<times> int \<Rightarrow> nat io" where
  "insertResponse d payload tr =
     (case call_conn d (Query (InsertResponse (fst payload) (snd payload))) tr of
        (Inl e, tr') \<Rightarrow> (Inl e, tr')
      | (Inr _, tr') \<Rightarrow> (Inr (insertId d tr), tr'))"

definition insertItems :: "db \<Rightarrow> jsstring list jsmap \<Rightarrow> unit io" where
  "insertItems d groups =
     (let values = concat (map (\<lambda>(prefix, codes). map (\<lambda>code. (code, prefix)) codes) groups)
      in if values = [] then return_io () else call_conn d (Query (InsertItems values)))"

fun join :: "jsstring \<Rightarrow> jsstring list \<Rightarrow> jsstring" where
  "join separator [] = []"
| "join separator [x] = x"
| "join separator (x # y # ys) = x @ separator @ join separator (y # ys)"

text \<open>
  \<^verbatim>\<open>[...c].sort().join('|')\<close>: the default sort compares strings by their code units,
  which is the lexicographic order of \<^typ>\<open>16 word list\<close>.
\<close>

definition combination_key :: "combo \<Rightarrow> jsstring" where
  "combination_key c = join (js ''|'') (sort c)"

definition CHUNK :: nat where
  "CHUNK = 1000"

definition combination_rows :: "nat \<Rightarrow> combo list \<Rightarrow> (nat \<times> jsstring \<times> combo) list" where
  "combination_rows responseId slice' = map (\<lambda>c. (responseId, combination_key c, c)) slice'"

function insertCombinations_loop :: "db \<Rightarrow> nat \<Rightarrow> combo list \<Rightarrow> nat \<Rightarrow> unit io" where
  "insertCombinations_loop d responseId combos i tr =
     (if i < length combos
      then (let slice' = take CHUNK (drop i combos);
                values = combination_rows responseId slice'
            in case call_conn d (Query (InsertCombinations values)) tr of
                 (Inl e, tr') \<Rightarrow> (Inl e, tr')
               | (Inr _, tr') \<Rightarrow> insertCombinations_loop d responseId combos (i + CHUNK) tr')
      else (Inr (), tr))"
  by pat_completeness auto
termination
  by (relation "measure (\<lambda>(d, responseId, combos, i, tr). length combos - i)")
     (auto simp: CHUNK_def)

definition insertCombinations :: "db \<Rightarrow> nat \<Rightarrow> combo list \<Rightarrow> unit io" where
  "insertCombinations d responseId combos =
     (if combos = [] then return_io () else insertCombinations_loop d responseId combos 0)"

section \<open>generateAndStore\<close>

datatype js_items = NotAnArray | Array "int list"

record result =
  id' :: "nat option"
  combination :: "combo list"

definition generateAndStore :: "db \<Rightarrow> js_items \<Rightarrow> int \<Rightarrow> result io" where
  "generateAndStore d items length' tr =
     (if length' < 1 then (Inl (BadRequestException ''length must be >= 1''), tr)
      else case items of
        NotAnArray \<Rightarrow> (Inl (BadRequestException ''items must be a non-empty array''), tr)
      | Array xs \<Rightarrow>
          if xs = [] then (Inl (BadRequestException ''items must be a non-empty array''), tr)
          else
            (let groups = expandItems xs in
             if length' > int (map_size groups)
             then (Inr \<lparr>id' = None, combination = []\<rparr>, tr)
             else case generateValidCombinations groups length' of
                    Inl e \<Rightarrow> (Inl e, tr)
                  | Inr allCombos \<Rightarrow>
                      bind_io
                        (withTransaction d
                           (bind_io (insertResponse d (xs, length')) (\<lambda>responseId.
                            bind_io (insertItems d groups) (\<lambda>_.
                            bind_io (insertCombinations d responseId allCombos) (\<lambda>_.
                            return_io responseId)))))
                        (\<lambda>result. return_io \<lparr>id' = Some result, combination = allCombos\<rparr>)
                        tr))"

section \<open>Auxiliary notions used in the statements\<close>

text \<open>The subsequences of \<open>xs\<close> with \<open>m\<close> elements, in the order of \<^const>\<open>subseqs\<close>.\<close>

definition combs :: "nat \<Rightarrow> 'a list \<Rightarrow> 'a list list" where
  "combs m xs = filter (\<lambda>ys. length ys = m) (subseqs xs)"

definition latin_alphabet :: string where
  "latin_alphabet = ''ABCDEFGHIJKLMNOPQRSTUVWXYZ''"

text \<open>A well-formed \<^verbatim>\<open>Map\<close> holds each key once.\<close>

definition wf_map :: "'v jsmap \<Rightarrow> bool" where
  "wf_map m = distinct (map fst m)"

text \<open>The items of the group labelled \<open>g\<close> (none when there is no such group).\<close>

definition items_of :: "jsstring list jsmap \<Rightarrow> jsstring \<Rightarrow> jsstring list" where
  "items_of groups g = (case map_get groups g of None \<Rightarrow> [] | Some codes \<Rightarrow> codes)"

text \<open>The mapping restricted to the groups with at least one item.\<close>

definition nonempty_groups :: "jsstring list jsmap \<Rightarrow> jsstring list jsmap" where
  "nonempty_groups groups = filter (\<lambda>(prefix, codes). codes \<noteq> []) groups"

text \<open>
  The combination rows that the queries of a trace carry, in the order they were sent.
\<close>

fun sent_rows :: "call list \<Rightarrow> (nat \<times> jsstring \<times> combo) list" where
  "sent_rows [] = []"
| "sent_rows (Query (InsertCombinations rows) # tr) = rows @ sent_rows tr"
| "sent_rows (c # tr) = sent_rows tr"

text \<open>A computation whose failures are all failures of the database.\<close>

definition db_errors_only :: "'a io \<Rightarrow> bool" where
  "db_errors_only m = (\<forall>tr e tr'. m tr = (Inl e, tr') \<longrightarrow> (\<exists>message. e = DbError message))"

text \<open>A database on which every call succeeds and every inserted row gets identifier \<open>n\<close>.\<close>

definition db_ok :: "nat \<Rightarrow> db" where
  "db_ok n = \<lparr>rejects = (\<lambda>tr c. None), insertId = (\<lambda>tr. n)\<rparr>"


section \<open>The group chooser enumerates the subsequences of a given size\<close>

declare backtrack.simps [simp del] backtrack_loop.simps [simp del]

lemma combs_Nil: "combs m [] = (if m = 0 then [[]] else [])"
  by (auto simp: combs_def)

lemma combs_0: "combs 0 xs = [[]]"
  by (induction xs) (simp_all add: combs_def Let_def filter_map o_def)

lemma combs_Suc_Cons:
  "combs (Suc m) (x # xs) = map (Cons x) (combs m xs) @ combs (Suc m) xs"
  by (simp add: combs_def Let_def filter_map o_def)

lemma set_combs: "set (combs m xs) = {ys. subseq ys xs \<and> length ys = m}"
  by (auto simp: combs_def)

lemma combs_too_long: "length xs < m \<Longrightarrow> combs m xs = []"
  unfolding combs_def filter_empty_conv
  using list_emb_length by fastforce

lemma combs_all: "combs (length xs) xs = [xs]"
  by (induction xs) (simp_all add: combs_Nil combs_Suc_Cons combs_too_long)

lemma length_combs: "length (combs m xs) = length xs choose m"
proof (induction xs arbitrary: m)
  case Nil
  then show ?case by (simp add: combs_Nil)
next
  case (Cons x xs)
  then show ?case by (cases m) (simp_all add: combs_0 combs_Suc_Cons)
qed

lemma distinct_subseqs: "distinct xs \<Longrightarrow> distinct (subseqs xs)"
  using distinct_set_subseqs distinct_map by blast

lemma distinct_combs: "distinct xs \<Longrightarrow> distinct (combs m xs)"
  by (simp add: combs_def distinct_subseqs)

text \<open>
  What a call of the closure appends to \<open>result\<close>: the current path extended by every
  way of completing it from the remaining suffix.
\<close>

lemma backtrack_combs:
  "int (length currentPath) \<le> k \<longrightarrow>
     backtrack items k startIndex currentPath result =
       result @ map ((@) currentPath) (combs (nat k - length currentPath) (drop startIndex items))"
  "int (length currentPath') < k \<longrightarrow>
     backtrack_loop items k i currentPath' result' =
       result' @ map ((@) currentPath') (combs (nat k - length currentPath') (drop i items))"
proof (induction items k startIndex currentPath result and items k i currentPath' result'
        rule: backtrack_backtrack_loop.induct)
  case (1 items k startIndex currentPath result)
  show ?case
  proof (cases "int (length currentPath) = k")
    case True
    then show ?thesis by (auto simp: combs_0 backtrack.simps)
  next
    case False
    with 1 show ?thesis by (auto simp: backtrack.simps)
  qed
next
  case (2 items k i currentPath result)
  show ?case
  proof
    assume lt: "int (length currentPath) < k"
    show "backtrack_loop items k i currentPath result =
       result @ map ((@) currentPath) (combs (nat k - length currentPath) (drop i items))"
    proof (cases "i < length items")
      case False
      with lt show ?thesis by (auto simp: combs_Nil backtrack_loop.simps)
    next
      case True
      obtain m where m: "nat k - length currentPath = Suc m"
        using lt by (metis Suc_diff_Suc zless_nat_eq_int_zless)
      have d: "drop i items = items ! i # drop (i + 1) items"
        using True by (simp add: Cons_nth_drop_Suc)
      have le: "int (length (currentPath @ [items ! i])) \<le> k" using lt by simp
      have m': "nat k - length (currentPath @ [items ! i]) = m" using m by simp
      have inner: "backtrack items k (i + 1) (currentPath @ [items ! i]) result
          = result @ map ((@) (currentPath @ [items ! i])) (combs m (drop (i + 1) items))"
        using 2(1)[OF True] le m' by simp
      have "backtrack_loop items k i currentPath result
          = backtrack_loop items k (i + 1) currentPath
              (backtrack items k (i + 1) (currentPath @ [items ! i]) result)"
        using True by (simp add: backtrack_loop.simps)
      also have "\<dots> = backtrack items k (i + 1) (currentPath @ [items ! i]) result
            @ map ((@) currentPath) (combs (Suc m) (drop (i + 1) items))"
        using 2(2)[OF True] lt m by simp
      finally show ?thesis
        unfolding inner m d by (simp add: combs_Suc_Cons o_def)
    qed
  qed
qed

lemma append_Nil_fun: "(@) [] = (\<lambda>x. x)"
  by (rule ext) simp

lemma choose_combos_combs: "0 \<le> k \<Longrightarrow> choose_combos items k = combs (nat k) items"
  using backtrack_combs(1)[of "[]" k items 0 "[]"]
  by (simp add: choose_combos_def append_Nil_fun)

text \<open>
  Claim C3.  For distinct labels and \<open>0 \<le> k\<close>, \<open>choose\<close> returns \<open>C(n, k)\<close> sequences,
  which are exactly the subsequences of \<open>labels\<close> with \<open>k\<close> elements (each of length
  \<open>k\<close>, in the relative order of \<open>labels\<close>, none missing), without duplicates; for
  \<open>k > n\<close> the result is empty, and for \<open>k = n\<close> it is \<open>labels\<close> alone.
\<close>

theorem choose_combos_correct:
  assumes "distinct labels" and "0 \<le> k"
  shows "length (choose_combos labels k) = (length labels choose nat k)
       \<and> set (choose_combos labels k) = {c. subseq c labels \<and> length c = nat k}
       \<and> distinct (choose_combos labels k)
       \<and> (int (length labels) < k \<longrightarrow> choose_combos labels k = [])
       \<and> (k = int (length labels) \<longrightarrow> choose_combos labels k = [labels])"
proof -
  note eq = choose_combos_combs[OF assms(2), of labels]
  have 1: "length (choose_combos labels k) = (length labels choose nat k)"
    by (simp add: eq length_combs)
  have 2: "set (choose_combos labels k) = {c. subseq c labels \<and> length c = nat k}"
    by (simp add: eq set_combs)
  have 3: "distinct (choose_combos labels k)"
    by (simp add: eq distinct_combs assms(1))
  have 4: "int (length labels) < k \<longrightarrow> choose_combos labels k = []"
    by (simp add: eq combs_too_long)
  have 5: "k = int (length labels) \<longrightarrow> choose_combos labels k = [labels]"
    using eq combs_all[of labels] by auto
  from 1 2 3 4 5 show ?thesis by blast
qed

theorem choose_combos_correct_witness:
  "distinct [js ''A'', js ''B'', js ''C''] \<and> (0::int) \<le> 2
   \<and> length (choose_combos [js ''A'', js ''B'', js ''C''] 2) = 3
   \<and> set (choose_combos [js ''A'', js ''B'', js ''C''] 2)
       = {c. subseq c [js ''A'', js ''B'', js ''C''] \<and> length c = 2}
   \<and> distinct (choose_combos [js ''A'', js ''B'', js ''C''] 2)
   \<and> choose_combos [js ''A'', js ''B'', js ''C''] 4 = []
   \<and> choose_combos [js ''A'', js ''B'', js ''C''] 3 = [[js ''A'', js ''B'', js ''C'']]"
proof -
  have d: "distinct [js ''A'', js ''B'', js ''C'']" by (simp add: js_def)
  have b: "Suc (Suc (Suc 0)) choose 2 = 3" by (simp add: numeral_eq_Suc)
  show ?thesis
    using d b choose_combos_correct[OF d, of 2] choose_combos_correct[OF d, of 4]
      choose_combos_correct[OF d, of 3]
    by simp
qed

section \<open>The item expander is the cross product\<close>

lemma append_snoc_fun: "(@) (a @ [x]) = (\<lambda>ys. a @ x # ys)"
  by (rule ext) simp

lemma cartesian_fold:
  "foldl (\<lambda>accumulator currentGroup.
              concat (map (\<lambda>previousCombination.
                             map (\<lambda>item. previousCombination @ [item]) currentGroup)
                          accumulator)) acc gs
   = concat (map (\<lambda>p. map ((@) p) (product_lists gs)) acc)"
proof (induction gs arbitrary: acc)
  case Nil
  show ?case by (induction acc) simp_all
next
  case (Cons g gs)
  show ?case
    unfolding foldl_Cons Cons.IH
    by (induction acc) (simp_all add: map_concat o_def append_snoc_fun)
qed

lemma cartesian_product_lists: "cartesian gs = product_lists gs"
  by (simp add: cartesian_def cartesian_fold append_Nil_fun)

lemma length_product_lists_prod: "length (product_lists gs) = prod_list (map length gs)"
  by (induction gs) (simp_all add: length_concat o_def sum_list_triv)

lemma count_list_concat: "count_list (concat xss) t = sum_list (map (\<lambda>xs. count_list xs t) xss)"
  by (induction xss) simp_all

lemma count_list_map_Cons:
  "count_list (map (Cons x) ys) t = (case t of [] \<Rightarrow> 0 | a # t' \<Rightarrow> if x = a then count_list ys t' else 0)"
  by (induction ys) (auto split: list.splits)

lemma sum_list_if_eq: "sum_list (map (\<lambda>x. if x = a then (c::nat) else 0) g) = count_list g a * c"
  by (induction g) simp_all

lemma count_list_product_lists:
  "count_list (product_lists gs) t =
     (if length t = length gs then prod_list (map (\<lambda>(g, x). count_list g x) (zip gs t)) else 0)"
proof (induction gs arbitrary: t)
  case Nil
  then show ?case by simp
next
  case (Cons g gs)
  show ?case
  proof (cases t)
    case Nil
    then show ?thesis by (simp add: count_list_concat o_def count_list_map_Cons)
  next
    case (Cons a t')
    then show ?thesis
      by (simp add: count_list_concat o_def count_list_map_Cons Cons.IH sum_list_if_eq)
  qed
qed

lemma prod_list_zip_nth:
  "length t = length gs \<Longrightarrow>
   prod_list (map (\<lambda>(g, x). f g x) (zip gs t)) = (\<Prod>i<length gs. (f (gs ! i) (t ! i) :: nat))"
proof (induction gs arbitrary: t)
  case Nil
  then show ?case by simp
next
  case (Cons g gs)
  then obtain a t' where t: "t = a # t'" by (cases t) auto
  with Cons show ?case by (simp add: prod.lessThan_Suc_shift del: prod.lessThan_Suc)
qed

lemma set_product_lists_nth:
  "set (product_lists gs) = {t. length t = length gs \<and> (\<forall>i<length gs. t ! i \<in> set (gs ! i))}"
  by (auto simp: product_lists_set list_all2_conv_all_nth)

text \<open>
  Claim C4.  \<open>cartesian\<close> returns as many tuples as the product of the sizes of the
  item-sequences; the tuples are exactly the sequences of length \<open>m\<close> whose \<open>i\<close>-th
  element is drawn from the \<open>i\<close>-th item-sequence; a tuple occurs once for every way of
  choosing its elements (so exactly once when no item-sequence repeats an item); and the
  empty input gives the single empty tuple.
\<close>

theorem cartesian_correct:
  "length (cartesian gs) = prod_list (map length gs)
   \<and> set (cartesian gs) = {t. length t = length gs \<and> (\<forall>i<length gs. t ! i \<in> set (gs ! i))}
   \<and> (\<forall>t. length t = length gs \<longrightarrow>
          count_list (cartesian gs) t = (\<Prod>i<length gs. count_list (gs ! i) (t ! i)))
   \<and> ((\<forall>g\<in>set gs. distinct g) \<longrightarrow> distinct (cartesian gs))
   \<and> cartesian ([] :: 'a list list) = [[]]"
proof -
  have 1: "length (cartesian gs) = prod_list (map length gs)"
    by (simp add: cartesian_product_lists length_product_lists_prod)
  have 2: "set (cartesian gs) = {t. length t = length gs \<and> (\<forall>i<length gs. t ! i \<in> set (gs ! i))}"
    by (simp add: cartesian_product_lists set_product_lists_nth)
  have 3: "\<forall>t. length t = length gs \<longrightarrow>
          count_list (cartesian gs) t = (\<Prod>i<length gs. count_list (gs ! i) (t ! i))"
    by (simp add: cartesian_product_lists count_list_product_lists prod_list_zip_nth)
  have 4: "(\<forall>g\<in>set gs. distinct g) \<longrightarrow> distinct (cartesian gs)"
    by (simp add: cartesian_product_lists distinct_product_lists)
  have 5: "cartesian ([] :: 'a list list) = [[]]"
    by (simp add: cartesian_def)
  from 1 2 3 4 5 show ?thesis by blast
qed

theorem cartesian_correct_witness:
  "distinct [js ''A1''] \<and> distinct [js ''B1'', js ''B2'']
   \<and> length [js ''A1'', js ''B2''] = length [[js ''A1''], [js ''B1'', js ''B2'']]
   \<and> length (cartesian [[js ''A1''], [js ''B1'', js ''B2'']]) = 2
   \<and> [js ''A1'', js ''B2''] \<in> set (cartesian [[js ''A1''], [js ''B1'', js ''B2'']])
   \<and> count_list (cartesian [[js ''A1''], [js ''B1'', js ''B2'']]) [js ''A1'', js ''B2''] = 1
   \<and> distinct (cartesian [[js ''A1''], [js ''B1'', js ''B2'']])"
proof -
  let ?G = "[[js ''A1''], [js ''B1'', js ''B2'']]"
  let ?t = "[js ''A1'', js ''B2'']"
  note T = cartesian_correct[of ?G]
  have d: "\<forall>g\<in>set ?G. distinct g"
    by (simp add: js_def)
  have l: "length ?t = length ?G"
    by simp
  have p: "{..<2::nat} = {0, 1}"
    by auto
  have 1: "length (cartesian ?G) = 2"
    using T[THEN conjunct1] by simp
  have 3: "count_list (cartesian ?G) ?t = 1"
    using T[THEN conjunct2, THEN conjunct2, THEN conjunct1, rule_format, OF l]
    by (simp add: p js_def)
  have 2: "?t \<in> set (cartesian ?G)"
    using 3 by (metis count_list_0_iff zero_neq_one)
  have 4: "distinct (cartesian ?G)"
    using T[THEN conjunct2, THEN conjunct2, THEN conjunct2, THEN conjunct1] d by blast
  have d': "distinct [js ''A1''] \<and> distinct [js ''B1'', js ''B2'']"
    using d by simp
  from d' l 1 2 3 4 show ?thesis by blast
qed

section \<open>The orchestrator in closed form\<close>

lemma map_get_Some_iff_key: "k \<in> fst ` set m \<Longrightarrow> \<exists>v. map_get m k = Some v"
  by (induction m) force+

lemma map_get_in_set: "map_get m k = Some v \<Longrightarrow> (k, v) \<in> set m"
  by (induction m) (auto split: if_splits)

lemma map_get_wf: "wf_map m \<Longrightarrow> (k, v) \<in> set m \<Longrightarrow> map_get m k = Some v"
  by (induction m) (auto simp: wf_map_def rev_image_eqI)

lemma those_map_Some: "those (map Some xs) = Some xs"
  by (induction xs) simp_all


lemma lookup_keys:
  "set ps \<subseteq> fst ` set groups \<Longrightarrow>
   those (map (map_get groups) ps) = Some (map (items_of groups) ps)"
proof (induction ps)
  case Nil
  show ?case by simp
next
  case (Cons p ps)
  then obtain v where v: "map_get groups p = Some v"
    using map_get_Some_iff_key[of p groups] by auto
  with Cons show ?case by (simp add: items_of_def)
qed

lemma generateValidCombinations_loop_keys:
  "\<forall>ps\<in>set pss. set ps \<subseteq> fst ` set groups \<Longrightarrow>
   generateValidCombinations_loop groups pss combos =
     Inr (combos @ concat (map (\<lambda>ps. cartesian (map (items_of groups) ps)) pss))"
  by (induction pss arbitrary: combos) (simp_all add: lookup_keys)

lemma subseq_set_subset: "subseq ys xs \<Longrightarrow> set ys \<subseteq> set xs"
  using list_emb_set[of "(=)" ys xs] by auto

lemma combs_map: "combs m (map f xs) = map (map f) (combs m xs)"
proof (induction xs arbitrary: m)
  case Nil
  then show ?case by (simp add: combs_Nil)
next
  case (Cons x xs)
  then show ?case by (cases m) (simp_all add: combs_0 combs_Suc_Cons)
qed


lemma generateValidCombinations_keys:
  assumes "0 \<le> length'"
  shows "generateValidCombinations groups length' =
     Inr (concat (map (\<lambda>ps. cartesian (map (items_of groups) ps))
                      (combs (nat length') (map_keys groups))))"
proof -
  have "\<forall>ps\<in>set (combs (nat length') (map fst groups)). set ps \<subseteq> fst ` set groups"
    using subseq_set_subset[of _ "map fst groups"] by (auto simp: set_combs)
  then show ?thesis
    unfolding generateValidCombinations_def Let_def choose_combos_combs[OF assms] map_keys_def
    by (simp only: generateValidCombinations_loop_keys append_Nil)
qed

lemma items_of_entries:
  assumes "wf_map groups" and "set es \<subseteq> set groups"
  shows "map (\<lambda>e. items_of groups (fst e)) es = map snd es"
proof (rule map_cong[OF refl])
  fix e assume "e \<in> set es"
  then have "(fst e, snd e) \<in> set groups" using assms(2) by auto
  then have "map_get groups (fst e) = Some (snd e)"
    by (rule map_get_wf[OF assms(1)])
  then show "items_of groups (fst e) = snd e"
    by (simp add: items_of_def)
qed

lemma generateValidCombinations_entries:
  assumes "wf_map groups" and "0 \<le> length'"
  shows "generateValidCombinations groups length' =
     Inr (concat (map (\<lambda>es. cartesian (map snd es)) (combs (nat length') groups)))"
proof -
  let ?F = "\<lambda>ps. cartesian (map (items_of groups) ps)"
  let ?G = "\<lambda>es. cartesian (map snd es)"
  have "map (?F \<circ> map fst) (combs (nat length') groups) = map ?G (combs (nat length') groups)"
  proof (rule map_cong[OF refl])
    fix es assume "es \<in> set (combs (nat length') groups)"
    then have "set es \<subseteq> set groups"
      using subseq_set_subset[of es groups] by (simp add: set_combs)
    then have "map (\<lambda>e. items_of groups (fst e)) es = map snd es"
      by (rule items_of_entries[OF assms(1)])
    then show "(?F \<circ> map fst) es = ?G es"
      by (simp only: o_def map_map)
  qed
  then have "map ?F (combs (nat length') (map fst groups)) = map ?G (combs (nat length') groups)"
    by (simp only: combs_map map_map)
  then show ?thesis
    by (simp only: generateValidCombinations_keys[OF assms(2)] map_keys_def)
qed

section \<open>Groups without items\<close>

lemma product_lists_empty: "[] \<in> set gs \<Longrightarrow> product_lists gs = []"
proof -
  assume "[] \<in> set gs"
  then have "prod_list (map length gs) = 0"
    by (simp add: prod_list_zero_iff)
  then show ?thesis
    using length_product_lists_prod[of gs] by simp
qed

lemma cartesian_empty_group: "[] \<in> set gs \<Longrightarrow> cartesian gs = []"
  by (simp add: cartesian_product_lists product_lists_empty)

lemma concat_combs_nonempty:
  "(\<And>es. [] \<in> snd ` set es \<Longrightarrow> f es = []) \<Longrightarrow>
   concat (map f (combs n groups)) = concat (map f (combs n (nonempty_groups groups)))"
proof (induction groups arbitrary: f n)
  case Nil
  show ?case by (simp add: nonempty_groups_def)
next
  case (Cons e groups)
  obtain k v where e: "e = (k, v)" by (cases e)
  show ?case
  proof (cases n)
    case 0
    then show ?thesis by (simp add: combs_0)
  next
    case (Suc m)
    have rest: "concat (map f (combs (Suc m) groups))
        = concat (map f (combs (Suc m) (nonempty_groups groups)))"
      by (rule Cons.IH) (rule Cons.prems)
    show ?thesis
    proof (cases "v = []")
      case True
      then have "\<And>es. f (e # es) = []"
        using Cons.prems e by simp
      then have "concat (map f (map (Cons e) (combs m groups))) = []"
        by (simp add: o_def)
      then show ?thesis
        using rest True e Suc by (simp add: combs_Suc_Cons nonempty_groups_def)
    next
      case False
      have "concat (map (\<lambda>es. f (e # es)) (combs m groups))
          = concat (map (\<lambda>es. f (e # es)) (combs m (nonempty_groups groups)))"
        by (rule Cons.IH) (simp add: Cons.prems)
      then show ?thesis
        using rest False e Suc by (simp add: combs_Suc_Cons nonempty_groups_def o_def)
    qed
  qed
qed

lemma map_set_keys:
  "map fst (map_set m k v) = (if k \<in> fst ` set m then map fst m else map fst m @ [k])"
  by (induction m) (auto simp: rev_image_eqI)

lemma wf_map_set: "wf_map m \<Longrightarrow> wf_map (map_set m k v)"
  by (simp add: wf_map_def map_set_keys)

lemma wf_expandItems_loop: "wf_map groups \<Longrightarrow> wf_map (expandItems_loop items codePoint groups)"
  by (induction items arbitrary: codePoint groups) (simp_all add: Let_def wf_map_set)

lemma wf_expandItems: "wf_map (expandItems items)"
  unfolding expandItems_def by (rule wf_expandItems_loop) (simp add: wf_map_def)

lemma wf_nonempty_groups: "wf_map groups \<Longrightarrow> wf_map (nonempty_groups groups)"
  by (simp add: wf_map_def nonempty_groups_def distinct_map_filter)

lemma generateValidCombinations_nonempty:
  assumes "wf_map groups" and "0 \<le> length'"
  shows "generateValidCombinations groups length' =
         generateValidCombinations (nonempty_groups groups) length'"
proof -
  have "concat (map (\<lambda>es. cartesian (map snd es)) (combs (nat length') groups))
      = concat (map (\<lambda>es. cartesian (map snd es)) (combs (nat length') (nonempty_groups groups)))"
    by (rule concat_combs_nonempty) (simp add: cartesian_empty_group)
  then show ?thesis
    by (simp only: generateValidCombinations_entries[OF assms]
          generateValidCombinations_entries[OF wf_nonempty_groups[OF assms(1)] assms(2)])
qed

section \<open>Counting the generated combinations\<close>

lemma inj_on_set_combs: "distinct xs \<Longrightarrow> inj_on set (set (combs m xs))"
proof -
  assume "distinct xs"
  then have "inj_on set (set (subseqs xs))"
    using distinct_set_subseqs[of xs] by (simp add: distinct_map)
  then show ?thesis
    by (rule inj_on_subset) (auto simp: combs_def)
qed

lemma set_image_combs:
  assumes "distinct xs"
  shows "set ` set (combs m xs) = {S. S \<subseteq> set xs \<and> card S = m}"
proof (rule set_eqI, rule iffI)
  fix S assume "S \<in> set ` set (combs m xs)"
  then obtain ys where ys: "subseq ys xs" "length ys = m" "S = set ys"
    by (auto simp: set_combs)
  have "distinct ys"
    using ys(1) assms subseqs_distinctD[of ys xs] by simp
  then have "card S = m" using ys by (simp add: distinct_card)
  moreover have "S \<subseteq> set xs" using ys subseq_set_subset[of ys xs] by simp
  ultimately show "S \<in> {S. S \<subseteq> set xs \<and> card S = m}" by simp
next
  fix S assume "S \<in> {S. S \<subseteq> set xs \<and> card S = m}"
  then have S: "S \<subseteq> set xs" "card S = m" by auto
  then obtain ys where ys: "ys \<in> set (subseqs xs)" "S = set ys"
    using subset_subseqs[of S xs] by auto
  have "distinct ys" using ys(1) assms by (rule subseqs_distinctD)
  then have "length ys = m" using S(2) ys(2) by (simp add: distinct_card)
  then show "S \<in> set ` set (combs m xs)"
    using ys by (auto simp: combs_def)
qed

lemma sum_combs_subsets:
  fixes h :: "'a \<Rightarrow> nat"
  assumes "distinct xs"
  shows "sum_list (map (\<lambda>ps. prod_list (map h ps)) (combs m xs))
       = (\<Sum>S | S \<subseteq> set xs \<and> card S = m. \<Prod>g\<in>S. h g)"
proof -
  have "sum_list (map (\<lambda>ps. prod_list (map h ps)) (combs m xs))
      = (\<Sum>ps\<in>set (combs m xs). prod_list (map h ps))"
    by (rule sum_list_distinct_conv_sum_set) (rule distinct_combs[OF assms])
  also have "\<dots> = (\<Sum>ps\<in>set (combs m xs). prod h (set ps))"
  proof (rule sum.cong[OF refl])
    fix ps assume "ps \<in> set (combs m xs)"
    then have "distinct ps"
      using assms subseqs_distinctD[of ps xs] by (simp add: combs_def)
    then show "prod_list (map h ps) = prod h (set ps)"
      by (simp add: prod.distinct_set_conv_list)
  qed
  also have "\<dots> = sum (prod h) (set ` set (combs m xs))"
    by (simp add: sum.reindex[OF inj_on_set_combs[OF assms]] o_def)
  finally show ?thesis
    by (simp only: set_image_combs[OF assms])
qed

lemma length_generated:
  "length (concat (map (\<lambda>ps. cartesian (map (items_of groups) ps)) pss))
   = sum_list (map (\<lambda>ps. prod_list (map (\<lambda>g. length (items_of groups g)) ps)) pss)"
  by (simp add: length_concat o_def cartesian_product_lists length_product_lists_prod)

section \<open>Properties of the orchestrator\<close>

text \<open>
  Claim C2.  For a well-formed groups mapping and \<open>1 \<le> length \<le>\<close> the number of
  non-empty groups, \<open>generateValidCombinations\<close> returns a list whose size is the sum,
  over the sets \<open>S\<close> of \<open>length\<close> group labels, of the product over \<open>g \<in> S\<close> of the
  number of items of group \<open>g\<close>.
\<close>

theorem generateValidCombinations_count:
  assumes "wf_map groups"
    and "1 \<le> length'"
    and "length' \<le> int (length (nonempty_groups groups))"
  shows "\<exists>combos. generateValidCombinations groups length' = Inr combos
           \<and> length combos =
               (\<Sum>S | S \<subseteq> set (map_keys groups) \<and> card S = nat length'.
                  \<Prod>g\<in>S. length (items_of groups g))"
proof -
  have k: "0 \<le> length'" using assms(2) by simp
  have d: "distinct (map_keys groups)"
    using assms(1) by (simp add: wf_map_def map_keys_def)
  show ?thesis
    by (simp only: generateValidCombinations_keys[OF k] length_generated
          sum_combs_subsets[OF d] sum.inject simp_thms ex_simps)
qed

theorem generateValidCombinations_count_witness:
  "wf_map (expandItems [1, 2, 1])
   \<and> (1::int) \<le> 2
   \<and> 2 \<le> int (length (nonempty_groups (expandItems [1, 2, 1])))
   \<and> (\<exists>combos. generateValidCombinations (expandItems [1, 2, 1]) 2 = Inr combos
          \<and> length combos = 5)
   \<and> (\<Sum>S | S \<subseteq> set (map_keys (expandItems [1, 2, 1])) \<and> card S = nat 2.
         \<Prod>g\<in>S. length (items_of (expandItems [1, 2, 1]) g)) = 5"
proof -
  let ?G = "expandItems [1, 2, 1]"
  have w: "wf_map ?G" by code_simp
  have l: "(1::int) \<le> 2" by simp
  have u: "2 \<le> int (length (nonempty_groups ?G))" by code_simp
  have e: "generateValidCombinations ?G 2 =
      Inr [[js ''A1'', js ''B1''], [js ''A1'', js ''B2''], [js ''A1'', js ''C1''],
           [js ''B1'', js ''C1''], [js ''B2'', js ''C1'']]"
    by code_simp
  from generateValidCombinations_count[OF w l u] e
  have s: "(\<Sum>S | S \<subseteq> set (map_keys ?G) \<and> card S = nat 2.
         \<Prod>g\<in>S. length (items_of ?G g)) = 5"
    by simp
  from e have x: "\<exists>combos. generateValidCombinations ?G 2 = Inr combos \<and> length combos = 5"
    by simp
  from w l u x s show ?thesis by blast
qed

text \<open>
  Claim C7.  For a well-formed groups mapping and \<open>length \<ge> 1\<close>, every combination
  returned by \<open>generateValidCombinations\<close> has exactly \<open>length\<close> item labels, and there
  are pairwise distinct group labels of the mapping such that the \<open>i\<close>-th item label of
  the combination is an item of the \<open>i\<close>-th of these groups.
\<close>

theorem generateValidCombinations_invariants:
  assumes "wf_map groups" and "1 \<le> length'"
  shows "\<exists>combos. generateValidCombinations groups length' = Inr combos
           \<and> (\<forall>c\<in>set combos.
                 int (length c) = length'
                 \<and> (\<exists>prefixes. distinct prefixes
                       \<and> set prefixes \<subseteq> set (map_keys groups)
                       \<and> length prefixes = length c
                       \<and> (\<forall>i<length c. c ! i \<in> set (items_of groups (prefixes ! i)))))"
proof -
  have k: "0 \<le> length'" using assms(2) by simp
  let ?combos = "concat (map (\<lambda>ps. cartesian (map (items_of groups) ps))
                      (combs (nat length') (map_keys groups)))"
  have d: "distinct (map_keys groups)"
    using assms(1) by (simp add: wf_map_def map_keys_def)
  have "\<forall>c\<in>set ?combos.
          int (length c) = length'
          \<and> (\<exists>prefixes. distinct prefixes
                \<and> set prefixes \<subseteq> set (map_keys groups)
                \<and> length prefixes = length c
                \<and> (\<forall>i<length c. c ! i \<in> set (items_of groups (prefixes ! i))))"
  proof
    fix c assume "c \<in> set ?combos"
    then obtain ps where ps: "ps \<in> set (combs (nat length') (map_keys groups))"
      and c: "c \<in> set (cartesian (map (items_of groups) ps))"
      by auto
    from ps have sub: "subseq ps (map_keys groups)" and len: "length ps = nat length'"
      by (simp_all add: set_combs)
    have dps: "distinct ps"
      using sub d subseqs_distinctD[of ps "map_keys groups"] by simp
    from c have lc: "length c = length ps"
      and mem: "\<forall>i<length ps. c ! i \<in> set (items_of groups (ps ! i))"
      by (simp_all add: cartesian_product_lists set_product_lists_nth)
    have "int (length c) = length'" using lc len k by simp
    moreover have "set ps \<subseteq> set (map_keys groups)"
      using sub by (rule subseq_set_subset)
    ultimately show "int (length c) = length'
          \<and> (\<exists>prefixes. distinct prefixes
                \<and> set prefixes \<subseteq> set (map_keys groups)
                \<and> length prefixes = length c
                \<and> (\<forall>i<length c. c ! i \<in> set (items_of groups (prefixes ! i))))"
      using dps lc mem by auto
  qed
  then show ?thesis
    using generateValidCombinations_keys[OF k, of groups] by blast
qed

theorem generateValidCombinations_invariants_witness:
  "wf_map (expandItems [1, 2, 1])
   \<and> (1::int) \<le> 2
   \<and> (\<exists>combos. generateValidCombinations (expandItems [1, 2, 1]) 2 = Inr combos
         \<and> [js ''A1'', js ''B2''] \<in> set combos
         \<and> int (length [js ''A1'', js ''B2'']) = 2
         \<and> (\<exists>prefixes. distinct prefixes
               \<and> set prefixes \<subseteq> set (map_keys (expandItems [1, 2, 1]))
               \<and> length prefixes = length [js ''A1'', js ''B2'']
               \<and> (\<forall>i<length [js ''A1'', js ''B2''].
                     [js ''A1'', js ''B2''] ! i
                       \<in> set (items_of (expandItems [1, 2, 1]) (prefixes ! i)))))"
proof -
  let ?G = "expandItems [1, 2, 1]"
  let ?c = "[js ''A1'', js ''B2'']"
  have w: "wf_map ?G" by code_simp
  have l: "(1::int) \<le> 2" by simp
  have e: "generateValidCombinations ?G 2 =
      Inr [[js ''A1'', js ''B1''], [js ''A1'', js ''B2''], [js ''A1'', js ''C1''],
           [js ''B1'', js ''C1''], [js ''B2'', js ''C1'']]"
    by code_simp
  obtain combos where c: "generateValidCombinations ?G 2 = Inr combos"
    and inv: "\<forall>c\<in>set combos.
                 int (length c) = 2
                 \<and> (\<exists>prefixes. distinct prefixes
                       \<and> set prefixes \<subseteq> set (map_keys ?G)
                       \<and> length prefixes = length c
                       \<and> (\<forall>i<length c. c ! i \<in> set (items_of ?G (prefixes ! i))))"
    using generateValidCombinations_invariants[OF w l] by blast
  have "combos = [[js ''A1'', js ''B1''], [js ''A1'', js ''B2''], [js ''A1'', js ''C1''],
           [js ''B1'', js ''C1''], [js ''B2'', js ''C1'']]"
    using c e by simp
  then have m: "?c \<in> set combos" by simp
  from inv m have "int (length ?c) = 2
                 \<and> (\<exists>prefixes. distinct prefixes
                       \<and> set prefixes \<subseteq> set (map_keys ?G)
                       \<and> length prefixes = length ?c
                       \<and> (\<forall>i<length ?c. ?c ! i \<in> set (items_of ?G (prefixes ! i))))"
    by (rule bspec)
  with w l c m show ?thesis by blast
qed

text \<open>
  Claim C10.  For every list of group sizes and every \<open>length \<ge> 1\<close>,
  \<open>generateValidCombinations\<close> returns the same list on the mapping built by
  \<open>expandItems\<close>, which keeps the groups of size 0, and on that mapping restricted to
  the groups with at least one item: a chosen set of groups that contains a group
  without items contributes no tuple.
\<close>

theorem generateValidCombinations_empty_groups:
  assumes "1 \<le> length'"
  shows "generateValidCombinations (expandItems items) length'
           = generateValidCombinations (nonempty_groups (expandItems items)) length'
       \<and> (\<exists>combos. generateValidCombinations (expandItems items) length' = Inr combos)
       \<and> (\<forall>prefixSet\<in>set (choose_combos (map_keys (expandItems items)) length').
             [] \<in> set (map (items_of (expandItems items)) prefixSet) \<longrightarrow>
             cartesian (map (items_of (expandItems items)) prefixSet) = [])"
proof -
  have k: "0 \<le> length'" using assms by simp
  have 1: "generateValidCombinations (expandItems items) length'
           = generateValidCombinations (nonempty_groups (expandItems items)) length'"
    by (rule generateValidCombinations_nonempty[OF wf_expandItems k])
  have 2: "\<exists>combos. generateValidCombinations (expandItems items) length' = Inr combos"
    by (simp only: generateValidCombinations_keys[OF k] sum.inject simp_thms ex_simps)
  have 3: "\<forall>prefixSet\<in>set (choose_combos (map_keys (expandItems items)) length').
             [] \<in> set (map (items_of (expandItems items)) prefixSet) \<longrightarrow>
             cartesian (map (items_of (expandItems items)) prefixSet) = []"
    using cartesian_empty_group by blast
  from 1 2 3 show ?thesis by blast
qed

theorem generateValidCombinations_empty_groups_witness:
  "(1::int) \<le> 2
   \<and> nonempty_groups (expandItems [1, 0, 2]) \<noteq> expandItems [1, 0, 2]
   \<and> generateValidCombinations (expandItems [1, 0, 2]) 2
        = generateValidCombinations (nonempty_groups (expandItems [1, 0, 2])) 2
   \<and> generateValidCombinations (expandItems [1, 0, 2]) 2
        = Inr [[js ''A1'', js ''C1''], [js ''A1'', js ''C2'']]
   \<and> [js ''A'', js ''B''] \<in> set (choose_combos (map_keys (expandItems [1, 0, 2])) 2)
   \<and> [] \<in> set (map (items_of (expandItems [1, 0, 2])) [js ''A'', js ''B''])
   \<and> cartesian (map (items_of (expandItems [1, 0, 2])) [js ''A'', js ''B'']) = []"
proof -
  let ?G = "expandItems [1, 0, 2]"
  let ?p = "[js ''A'', js ''B'']"
  note T = generateValidCombinations_empty_groups[of 2 "[1, 0, 2]"]
  have l: "(1::int) \<le> 2" by simp
  have n: "nonempty_groups ?G \<noteq> ?G" by code_simp
  have e: "generateValidCombinations ?G 2 = Inr [[js ''A1'', js ''C1''], [js ''A1'', js ''C2'']]"
    by code_simp
  have m: "?p \<in> set (choose_combos (map_keys ?G) 2)" by code_simp
  have z: "[] \<in> set (map (items_of ?G) ?p)" by code_simp
  have 1: "generateValidCombinations ?G 2 = generateValidCombinations (nonempty_groups ?G) 2"
    using T[OF l] by blast
  have 3: "cartesian (map (items_of ?G) ?p) = []"
    using T[OF l] m z by blast
  from l n e m z 1 3 show ?thesis by blast
qed

section \<open>The labeler\<close>

lemma expandItems_loop_snoc:
  "expandItems_loop (items @ [c]) codePoint groups =
     map_set (expandItems_loop items codePoint groups)
       (fromCharCode (codePoint + length items))
       (map (\<lambda>i. fromCharCode (codePoint + length items) @ toString i) [1..c])"
  by (induction items arbitrary: codePoint groups) (simp_all add: Let_def)

lemma map_set_fresh: "k \<notin> fst ` set m \<Longrightarrow> map_set m k v = m @ [(k, v)]"
  by (induction m) auto

lemma fromCharCode_eq_iff:
  "fromCharCode a = fromCharCode b \<longleftrightarrow> a mod 65536 = b mod 65536"
  by (simp add: fromCharCode_def word_of_nat_eq_iff take_bit_eq_mod)

lemma fromCharCode_fresh:
  assumes "i < n" and "n < 65536"
  shows "fromCharCode (65 + i) \<noteq> fromCharCode (65 + n)"
proof -
  have "\<not> (65536::nat) dvd (65 + n) - (65 + i)"
    using assms by (simp add: nat_dvd_not_less)
  moreover have "65 + i \<le> 65 + n"
    using assms(1) by simp
  ultimately have "(65 + n) mod 65536 \<noteq> (65 + i) mod 65536"
    by (simp only: mod_eq_dvd_iff_nat not_False_eq_True)
  then have "(65 + i) mod 65536 \<noteq> (65 + n) mod 65536"
    by (rule not_sym)
  then show ?thesis by (simp only: fromCharCode_eq_iff not_False_eq_True)
qed

lemma expandItems_closed:
  "length items \<le> 65536 \<Longrightarrow>
   expandItems items =
     map (\<lambda>i. (fromCharCode (65 + i),
               map (\<lambda>j. fromCharCode (65 + i) @ toString j) [1..items ! i]))
         [0..<length items]"
proof (induction items rule: rev_induct)
  case Nil
  show ?case by (simp add: expandItems_def)
next
  case (snoc c items)
  let ?n = "length items"
  let ?g = "\<lambda>xs i. (fromCharCode (65 + i),
               map (\<lambda>j. fromCharCode (65 + i) @ toString j) [1..xs ! i])"
  have n: "?n < 65536" using snoc.prems by simp
  have IH: "expandItems items = map (?g items) [0..<?n]"
    using snoc by simp
  have fresh: "fromCharCode (65 + ?n) \<notin> fst ` set (expandItems items)"
  proof
    assume "fromCharCode (65 + ?n) \<in> fst ` set (expandItems items)"
    then obtain i where "i < ?n" "fromCharCode (65 + ?n) = fromCharCode (65 + i)"
      unfolding IH by auto
    then show False using fromCharCode_fresh[of i ?n] n by simp
  qed
  have old: "map (?g (items @ [c])) [0..<?n] = map (?g items) [0..<?n]"
    by (rule map_cong[OF refl]) (simp add: nth_append)
  have "expandItems (items @ [c]) = expandItems items @ [?g (items @ [c]) ?n]"
    using map_set_fresh[OF fresh]
    by (simp add: expandItems_def expandItems_loop_snoc)
  then show ?case
    by (simp add: IH old)
qed

lemma latin_letters:
  "\<forall>i\<in>set [0..<26]. js [latin_alphabet ! i] = fromCharCode (65 + i)"
  by code_simp

lemma length_upto_1: "length [1..c] = nat c"
  by simp

lemma sum_list_nat_nonneg:
  "\<forall>c\<in>set items. 0 \<le> c \<Longrightarrow> int (sum_list (map nat items)) = sum_list items"
  by (induction items) simp_all

text \<open>
  Claim C5, amended.  For a non-empty sequence of at most 65536 non-negative integers,
  \<open>expandItems\<close> builds one group per element; the label of the \<open>i\<close>-th group is the
  single code unit \<open>65 + i\<close>, which is the \<open>i\<close>-th letter of the Latin alphabet for
  \<open>i < 26\<close>; its items are the label followed by \<open>1, \<dots>, count\<close>, in order; and the
  number of item labels over all groups is the sum of the sequence.
\<close>

theorem expandItems_labels:
  assumes "items \<noteq> []" and "\<forall>c\<in>set items. 0 \<le> c" and "length items \<le> 65536"
  shows "map_size (expandItems items) = length items
       \<and> (\<forall>i<length items.
             fst (expandItems items ! i) = fromCharCode (65 + i)
             \<and> (i < 26 \<longrightarrow> fst (expandItems items ! i) = js [latin_alphabet ! i])
             \<and> snd (expandItems items ! i)
                 = map (\<lambda>j. fst (expandItems items ! i) @ toString j) [1..items ! i])
       \<and> int (length (concat (map snd (expandItems items)))) = sum_list items"
proof -
  note eq = expandItems_closed[OF assms(3)]
  have 1: "map_size (expandItems items) = length items"
    by (simp add: eq map_size_def)
  have 2: "\<forall>i<length items.
             fst (expandItems items ! i) = fromCharCode (65 + i)
             \<and> (i < 26 \<longrightarrow> fst (expandItems items ! i) = js [latin_alphabet ! i])
             \<and> snd (expandItems items ! i)
                 = map (\<lambda>j. fst (expandItems items ! i) @ toString j) [1..items ! i]"
    using latin_letters by (simp add: eq)
  have n: "map (\<lambda>i. nat (items ! i)) [0..<length items] = map nat items"
    by (rule nth_equalityI) simp_all
  have "map length (map snd (expandItems items)) = map (\<lambda>i. nat (items ! i)) [0..<length items]"
    unfolding eq by simp
  then have "length (concat (map snd (expandItems items))) = sum_list (map nat items)"
    by (simp only: length_concat n)
  then have 3: "int (length (concat (map snd (expandItems items)))) = sum_list items"
    using sum_list_nat_nonneg[OF assms(2)] by simp
  from 1 2 3 show ?thesis by blast
qed

text \<open>
  Beyond 26 elements the label is no longer a letter, and beyond 65536 elements
  \<^verbatim>\<open>String.fromCharCode\<close> wraps around, so that later groups replace earlier ones.
\<close>

lemma set_map_set: "set (map_set m k v) \<subseteq> insert (k, v) (set m)"
  by (induction m) (auto split: if_splits)

lemma expandItems_loop_entries:
  "e \<in> set (expandItems_loop items codePoint groups) \<Longrightarrow>
   e \<in> set groups \<or> (length (fst e) = 1 \<and> (\<exists>c\<in>set items. length (snd e) = nat c))"
proof (induction items arbitrary: codePoint groups)
  case Nil
  then show ?case by simp
next
  case (Cons c items)
  let ?prefix = "fromCharCode codePoint"
  let ?arr = "map (\<lambda>i. ?prefix @ toString i) [1..c]"
  from Cons.prems have "e \<in> set (expandItems_loop items (codePoint + 1) (map_set groups ?prefix ?arr))"
    by (simp add: Let_def)
  then consider "e \<in> set (map_set groups ?prefix ?arr)"
    | "length (fst e) = 1 \<and> (\<exists>c\<in>set items. length (snd e) = nat c)"
    using Cons.IH by blast
  then show ?case
  proof cases
    case 1
    then have "e = (?prefix, ?arr) \<or> e \<in> set groups"
      using set_map_set[of groups ?prefix ?arr] by auto
    then show ?thesis by (auto simp: fromCharCode_def)
  next
    case 2
    then show ?thesis by auto
  qed
qed

lemma distinct_code_units_bound:
  fixes ks :: "jsstring list"
  assumes "distinct ks" and "\<forall>k\<in>set ks. length k = 1"
  shows "length ks \<le> 65536"
proof -
  have "set ks \<subseteq> range (\<lambda>w :: 16 word. [w])"
  proof
    fix k assume "k \<in> set ks"
    then have "length k = 1" using assms(2) by simp
    then obtain w where "k = [w]" by (cases k) auto
    then show "k \<in> range (\<lambda>w :: 16 word. [w])" by simp
  qed
  then have "card (set ks) \<le> card (range (\<lambda>w :: 16 word. [w]))"
    by (rule card_mono[rotated]) simp
  also have "\<dots> \<le> card (UNIV :: 16 word set)"
    by (rule card_image_le) simp
  also have "\<dots> = 65536"
    by (simp add: card_word)
  finally show ?thesis
    using assms(1) by (simp add: distinct_card)
qed

lemma expandItems_wraps:
  assumes "65536 < n"
  shows "int (length (concat (map snd (expandItems (replicate n 1)))))
     \<noteq> sum_list (replicate n 1)"
proof -
  let ?G = "expandItems (replicate n 1)"
  have ent: "\<forall>e\<in>set ?G. length (fst e) = 1 \<and> length (snd e) = 1"
  proof
    fix e assume "e \<in> set ?G"
    then have "length (fst e) = 1 \<and> (\<exists>c\<in>set (replicate n (1::int)). length (snd e) = nat c)"
      using expandItems_loop_entries[of e "replicate n 1" 65 "[]"]
      by (simp add: expandItems_def)
    then show "length (fst e) = 1 \<and> length (snd e) = 1" by auto
  qed
  have "distinct (map fst ?G)"
    using wf_expandItems[of "replicate n 1"] by (simp add: wf_map_def)
  then have bound: "length (map fst ?G) \<le> 65536"
    by (rule distinct_code_units_bound) (use ent in auto)
  have "map (\<lambda>e. length (snd e)) ?G = map (\<lambda>e. 1) ?G"
    by (rule map_cong[OF refl]) (use ent in simp)
  then have "sum_list (map (\<lambda>e. length (snd e)) ?G) = sum_list (map (\<lambda>e. 1) ?G)"
    by (rule arg_cong)
  then have "length (concat (map snd ?G)) = length ?G"
    by (simp add: length_concat o_def sum_list_triv)
  then have "int (length (concat (map snd ?G))) \<le> 65536"
    using bound by simp
  moreover have "sum_list (replicate n (1::int)) = int n"
    by (simp add: sum_list_replicate)
  ultimately show ?thesis using assms by simp
qed

theorem expandItems_labels_counterexample:
  "fst (expandItems (replicate 27 1) ! 26) = js ''[''
   \<and> CHR ''['' \<notin> set latin_alphabet
   \<and> int (length (concat (map snd (expandItems (replicate 65537 1)))))
       \<noteq> sum_list (replicate 65537 1)"
proof -
  have 1: "fst (expandItems (replicate 27 1) ! 26) = js ''[''" by code_simp
  have 2: "CHR ''['' \<notin> set latin_alphabet" by code_simp
  have 3: "(65536::nat) < 65537" by simp
  from 1 2 expandItems_wraps[OF 3] show ?thesis by blast
qed


theorem expandItems_labels_witness:
  "[1, 2, 1] \<noteq> ([] :: int list)
   \<and> (0::int) \<le> 1 \<and> (0::int) \<le> 2
   \<and> length [1, 2, 1 :: int] \<le> 65536
   \<and> (1::nat) < length [1, 2, 1 :: int] \<and> (1::nat) < 26
   \<and> map_size (expandItems [1, 2, 1]) = 3
   \<and> fst (expandItems [1, 2, 1] ! 1) = js ''B''
   \<and> snd (expandItems [1, 2, 1] ! 1) = [js ''B1'', js ''B2'']
   \<and> int (length (concat (map snd (expandItems [1, 2, 1])))) = 4"
proof -
  let ?xs = "[1, 2, 1] :: int list"
  have a: "?xs \<noteq> []" by simp
  have b: "\<forall>c\<in>set ?xs. 0 \<le> c" by simp
  have c: "length ?xs \<le> 65536" by simp
  have i: "(1::nat) < length ?xs" and j: "(1::nat) < 26" by simp_all
  note T = expandItems_labels[OF a b c]
  have 1: "map_size (expandItems ?xs) = 3"
    using T[THEN conjunct1] by simp
  have at: "fst (expandItems ?xs ! 1) = fromCharCode (65 + 1)
             \<and> ((1::nat) < 26 \<longrightarrow> fst (expandItems ?xs ! 1) = js [latin_alphabet ! 1])
             \<and> snd (expandItems ?xs ! 1)
                 = map (\<lambda>j. fst (expandItems ?xs ! 1) @ toString j) [1..?xs ! 1]"
    using T[THEN conjunct2, THEN conjunct1, rule_format, OF i] .
  have l: "js [latin_alphabet ! 1] = js ''B''" by code_simp
  have 2: "fst (expandItems ?xs ! 1) = js ''B''"
    using at[THEN conjunct2, THEN conjunct1, rule_format, OF j] l by (rule trans)
  have u: "map (\<lambda>j. js ''B'' @ toString j) [1..?xs ! 1] = [js ''B1'', js ''B2'']"
    by code_simp
  have 3: "snd (expandItems ?xs ! 1) = [js ''B1'', js ''B2'']"
    using at[THEN conjunct2, THEN conjunct2] u by (simp only: 2)
  have 4: "int (length (concat (map snd (expandItems ?xs)))) = 4"
    using T[THEN conjunct2, THEN conjunct2] by simp
  have b': "(0::int) \<le> 1 \<and> (0::int) \<le> 2" by simp
  from a b' c i j 1 2 3 4 show ?thesis by blast
qed

section \<open>Transactions\<close>

lemma call_conn_ok: "rejects d tr c = None \<Longrightarrow> call_conn d c tr = (Inr (), tr @ [c])"
  by (simp add: call_conn_def)

lemma call_conn_fails:
  "rejects d tr c = Some m \<Longrightarrow> call_conn d c tr = (Inl (DbError m), tr @ [c])"
  by (simp add: call_conn_def)

lemma snd_call_conn: "snd (call_conn d c tr) = tr @ [c]"
  by (simp add: call_conn_def split: option.splits)

text \<open>The three ways through \<open>withTransaction\<close> once the connection is there.\<close>

lemma withTransaction_begin_fails:
  assumes "rejects d tr GetConnection = None"
    and "rejects d (tr @ [GetConnection]) BeginTransaction = Some m"
  shows "snd (withTransaction d f tr) = tr @ [GetConnection, BeginTransaction, Rollback, Release]"
    and "\<exists>e. fst (withTransaction d f tr) = Inl e"
  using assms
  by (auto simp: withTransaction_def bind_io_def call_conn_def split: option.splits)







section \<open>The entry point\<close>

lemma db_errors_only_call_conn: "db_errors_only (call_conn d c)"
  by (auto simp: db_errors_only_def call_conn_def split: option.splits)

lemma db_errors_only_return: "db_errors_only (return_io x)"
  by (simp add: db_errors_only_def return_io_def)

lemma db_errors_only_bind:
  assumes "db_errors_only m" and "\<And>x. db_errors_only (f x)"
  shows "db_errors_only (bind_io m f)"
  unfolding db_errors_only_def
proof (intro allI impI)
  fix tr e tr'
  assume h: "bind_io m f tr = (Inl e, tr')"
  obtain r tr1 where m: "m tr = (r, tr1)" by (cases "m tr")
  show "\<exists>message. e = DbError message"
  proof (cases r)
    case (Inl e1)
    with h m have "m tr = (Inl e, tr')" by (simp add: bind_io_def)
    with assms(1) show ?thesis unfolding db_errors_only_def by blast
  next
    case (Inr x)
    with h m have "f x tr1 = (Inl e, tr')" by (simp add: bind_io_def)
    with assms(2)[of x] show ?thesis unfolding db_errors_only_def by blast
  qed
qed

lemma db_errors_only_insertResponse: "db_errors_only (insertResponse d payload)"
  by (auto simp: db_errors_only_def insertResponse_def call_conn_def split: option.splits)

lemma db_errors_only_insertItems: "db_errors_only (insertItems d groups)"
  by (simp add: insertItems_def Let_def db_errors_only_return db_errors_only_call_conn)

declare insertCombinations_loop.simps [simp del]

lemma insertCombinations_loop_error:
  "insertCombinations_loop d responseId combos i tr = (Inl e, tr') \<Longrightarrow> \<exists>message. e = DbError message"
proof (induction d responseId combos i tr rule: insertCombinations_loop.induct)
  case (1 d responseId combos i tr)
  let ?q = "Query (InsertCombinations (combination_rows responseId (take CHUNK (drop i combos))))"
  show ?case
  proof (cases "i < length combos")
    case False
    with "1.prems" show ?thesis by (simp add: insertCombinations_loop.simps)
  next
    case True
    show ?thesis
    proof (cases "rejects d tr ?q")
      case None
      then have c: "call_conn d ?q tr = (Inr (), tr @ [?q])" by (rule call_conn_ok)
      from "1.prems" True c
      have "insertCombinations_loop d responseId combos (i + CHUNK) (tr @ [?q]) = (Inl e, tr')"
        by (simp add: insertCombinations_loop.simps[of d responseId combos i tr] Let_def)
      with "1.IH"[OF True refl refl c[symmetric] refl] show ?thesis by simp
    next
      case (Some m)
      then have c: "call_conn d ?q tr = (Inl (DbError m), tr @ [?q])" by (rule call_conn_fails)
      from "1.prems" True c show ?thesis
        by (auto simp: insertCombinations_loop.simps[of d responseId combos i tr] Let_def)
    qed
  qed
qed

lemma db_errors_only_insertCombinations: "db_errors_only (insertCombinations d responseId combos)"
  using insertCombinations_loop_error
  by (auto simp: insertCombinations_def db_errors_only_return) (auto simp: db_errors_only_def)

lemma db_errors_only_withTransaction:
  assumes "db_errors_only f"
  shows "db_errors_only (withTransaction d f)"
  unfolding db_errors_only_def
proof (intro allI impI)
  fix tr e tr'
  assume h: "withTransaction d f tr = (Inl e, tr')"
  have f: "\<And>t e t'. f t = (Inl e, t') \<Longrightarrow> \<exists>message. e = DbError message"
    using assms unfolding db_errors_only_def by blast
  show "\<exists>message. e = DbError message"
    using h f
    by (auto simp: withTransaction_def bind_io_def return_io_def call_conn_def
        split: option.splits sum.splits prod.splits)
qed

lemma db_errors_only_transaction:
  "db_errors_only
     (withTransaction d
        (bind_io (insertResponse d payload) (\<lambda>responseId.
         bind_io (insertItems d groups) (\<lambda>_.
         bind_io (insertCombinations d responseId allCombos) (\<lambda>_.
         return_io responseId)))))"
  by (intro db_errors_only_withTransaction db_errors_only_bind db_errors_only_insertResponse
        db_errors_only_insertItems db_errors_only_insertCombinations db_errors_only_return)

lemma generateAndStore_rejects_length:
  "length' < 1 \<Longrightarrow>
   generateAndStore d items length' tr = (Inl (BadRequestException ''length must be >= 1''), tr)"
  by (simp add: generateAndStore_def)

lemma generateAndStore_rejects_items:
  "\<not> length' < 1 \<Longrightarrow> items = NotAnArray \<or> items = Array [] \<Longrightarrow>
   generateAndStore d items length' tr =
     (Inl (BadRequestException ''items must be a non-empty array''), tr)"
  by (auto simp: generateAndStore_def)

lemma generateAndStore_short_circuit:
  "\<not> length' < 1 \<Longrightarrow> xs \<noteq> [] \<Longrightarrow> int (map_size (expandItems xs)) < length' \<Longrightarrow>
   generateAndStore d (Array xs) length' tr = (Inr \<lparr>id' = None, combination = []\<rparr>, tr)"
  by (simp add: generateAndStore_def)

lemma generateAndStore_computed:
  assumes "\<not> length' < 1" and "xs \<noteq> []" and "\<not> int (map_size (expandItems xs)) < length'"
  shows "\<exists>allCombos. generateValidCombinations (expandItems xs) length' = Inr allCombos
           \<and> ((\<exists>message tr'. generateAndStore d (Array xs) length' tr = (Inl (DbError message), tr'))
              \<or> (\<exists>responseId tr'. generateAndStore d (Array xs) length' tr
                    = (Inr \<lparr>id' = Some responseId, combination = allCombos\<rparr>, tr')))"
proof -
  have k: "0 \<le> length'" using assms(1) by simp
  obtain allCombos where g: "generateValidCombinations (expandItems xs) length' = Inr allCombos"
    using generateValidCombinations_keys[OF k] by blast
  let ?T = "withTransaction d
        (bind_io (insertResponse d (xs, length')) (\<lambda>responseId.
         bind_io (insertItems d (expandItems xs)) (\<lambda>_.
         bind_io (insertCombinations d responseId allCombos) (\<lambda>_.
         return_io responseId))))"
  have eq: "generateAndStore d (Array xs) length' tr
      = bind_io ?T (\<lambda>result. return_io \<lparr>id' = Some result, combination = allCombos\<rparr>) tr"
    using assms g by (simp add: generateAndStore_def Let_def)
  obtain r tr1 where t: "?T tr = (r, tr1)" by (cases "?T tr")
  have "(\<exists>message tr'. generateAndStore d (Array xs) length' tr = (Inl (DbError message), tr'))
      \<or> (\<exists>responseId tr'. generateAndStore d (Array xs) length' tr
            = (Inr \<lparr>id' = Some responseId, combination = allCombos\<rparr>, tr'))"
  proof (cases r)
    case (Inl e)
    then obtain message where "e = DbError message"
      using t db_errors_only_transaction[of d "(xs, length')" "expandItems xs" allCombos]
      unfolding db_errors_only_def by blast
    then show ?thesis using t Inl by (simp add: eq bind_io_def)
  next
    case (Inr responseId)
    then show ?thesis using t by (simp add: eq bind_io_def return_io_def)
  qed
  with g show ?thesis by blast
qed

lemma js_items_cases:
  "items = NotAnArray \<or> items = Array [] \<or> (\<exists>xs. items = Array xs \<and> xs \<noteq> [])"
  by (cases items) auto

lemma generateAndStore_valid_not_rejected:
  assumes "\<not> length' < 1" and "xs \<noteq> []"
  shows "fst (generateAndStore d (Array xs) length' tr) \<noteq> Inl (BadRequestException message)"
proof (cases "int (map_size (expandItems xs)) < length'")
  case True
  then show ?thesis by (simp add: generateAndStore_short_circuit[OF assms])
next
  case False
  from generateAndStore_computed[OF assms False, of d tr] show ?thesis by auto
qed

text \<open>
  Claim C6.  \<open>generateAndStore\<close> rejects with "length must be >= 1" exactly when
  \<open>length < 1\<close>, and otherwise with "items must be a non-empty array" exactly when
  \<open>items\<close> is not an array or is empty; a rejected request leaves the trace of
  persistence calls as it was; and no request with \<open>length \<ge> 1\<close> and a non-empty
  array is rejected with a validation error.
\<close>

theorem generateAndStore_validation:
  "(fst (generateAndStore d items length' tr)
       = Inl (BadRequestException ''length must be >= 1'') \<longleftrightarrow> length' < 1)
   \<and> (fst (generateAndStore d items length' tr)
       = Inl (BadRequestException ''items must be a non-empty array'')
         \<longleftrightarrow> \<not> length' < 1 \<and> (items = NotAnArray \<or> items = Array []))
   \<and> (length' < 1 \<or> items = NotAnArray \<or> items = Array []
         \<longrightarrow> snd (generateAndStore d items length' tr) = tr)
   \<and> (\<not> length' < 1 \<and> items \<noteq> NotAnArray \<and> items \<noteq> Array []
         \<longrightarrow> (\<forall>message. fst (generateAndStore d items length' tr)
                          \<noteq> Inl (BadRequestException message)))"
proof (cases "length' < 1")
  case True
  then show ?thesis by (simp add: generateAndStore_rejects_length)
next
  case False
  note l = False
  show ?thesis
  proof (cases "items = NotAnArray \<or> items = Array []")
    case True
    then show ?thesis using l by (simp add: generateAndStore_rejects_items[OF l True])
  next
    case False
    then obtain xs where xs: "items = Array xs" "xs \<noteq> []"
      using js_items_cases[of items] by blast
    have "\<forall>message. fst (generateAndStore d items length' tr) \<noteq> Inl (BadRequestException message)"
      using generateAndStore_valid_not_rejected[OF l xs(2)] xs(1) by simp
    then show ?thesis using l False by simp
  qed
qed

theorem generateAndStore_validation_witness:
  "generateAndStore (db_ok 7) (Array [1, 2]) 0 []
     = (Inl (BadRequestException ''length must be >= 1''), [])
   \<and> generateAndStore (db_ok 7) (Array []) 2 []
     = (Inl (BadRequestException ''items must be a non-empty array''), [])
   \<and> generateAndStore (db_ok 7) NotAnArray 2 []
     = (Inl (BadRequestException ''items must be a non-empty array''), [])
   \<and> \<not> (2::int) < 1 \<and> Array [1, 2, 1] \<noteq> NotAnArray \<and> Array [1, 2, 1] \<noteq> Array []
   \<and> (\<forall>message. fst (generateAndStore (db_ok 7) (Array [1, 2, 1]) 2 [])
                    \<noteq> Inl (BadRequestException message))"
proof -
  let ?d = "db_ok 7"
  note A = generateAndStore_validation[of ?d "Array [1, 2]" 0 "[]"]
  note B = generateAndStore_validation[of ?d "Array []" 2 "[]"]
  note C = generateAndStore_validation[of ?d NotAnArray 2 "[]"]
  note D = generateAndStore_validation[of ?d "Array [1, 2, 1]" 2 "[]"]
  have 1: "generateAndStore ?d (Array [1, 2]) 0 []
     = (Inl (BadRequestException ''length must be >= 1''), [])"
    using A by (simp add: prod_eq_iff)
  have 2: "generateAndStore ?d (Array []) 2 []
     = (Inl (BadRequestException ''items must be a non-empty array''), [])"
    using B by (simp add: prod_eq_iff)
  have 3: "generateAndStore ?d NotAnArray 2 []
     = (Inl (BadRequestException ''items must be a non-empty array''), [])"
    using C by (simp add: prod_eq_iff)
  have v: "\<not> (2::int) < 1 \<and> Array [1, 2, 1] \<noteq> NotAnArray \<and> Array [1, 2, 1] \<noteq> Array []"
    by simp
  have 4: "\<forall>message. fst (generateAndStore ?d (Array [1, 2, 1]) 2 [])
                    \<noteq> Inl (BadRequestException message)"
    using D[THEN conjunct2, THEN conjunct2, THEN conjunct2] v by blast
  from 1 2 3 v 4 show ?thesis by blast
qed

text \<open>
  Claim C1, amended.  For a non-empty array and \<open>length \<ge> 1\<close>, \<open>generateAndStore\<close>
  returns the empty result (no identifier, no combination) exactly when \<open>length\<close>
  exceeds the number of groups of the mapping built by \<open>expandItems\<close>, in which groups of
  size 0 count (it is the number of elements of \<open>items\<close> up to 65536 of them); in that
  case no call is made on the database.
\<close>

theorem generateAndStore_empty_result:
  assumes "xs \<noteq> []" and "1 \<le> length'"
  shows "(fst (generateAndStore d (Array xs) length' tr) = Inr \<lparr>id' = None, combination = []\<rparr>
            \<longleftrightarrow> int (map_size (expandItems xs)) < length')
       \<and> (int (map_size (expandItems xs)) < length'
            \<longrightarrow> snd (generateAndStore d (Array xs) length' tr) = tr)
       \<and> (length xs \<le> 65536 \<longrightarrow> map_size (expandItems xs) = length xs)"
proof -
  have l: "\<not> length' < 1" using assms(2) by simp
  have 3: "length xs \<le> 65536 \<longrightarrow> map_size (expandItems xs) = length xs"
    by (auto simp: map_size_def expandItems_closed)
  show ?thesis
  proof (cases "int (map_size (expandItems xs)) < length'")
    case True
    then show ?thesis
      using 3 by (simp add: generateAndStore_short_circuit[OF l assms(1)])
  next
    case False
    from generateAndStore_computed[OF l assms(1) False, of d tr]
    have "fst (generateAndStore d (Array xs) length' tr) \<noteq> Inr \<lparr>id' = None, combination = []\<rparr>"
      by auto
    then show ?thesis using False 3 by simp
  qed
qed

theorem generateAndStore_empty_result_witness:
  "[1, 1] \<noteq> ([] :: int list) \<and> (1::int) \<le> 3 \<and> (1::int) \<le> 2
   \<and> int (map_size (expandItems [1, 1])) < 3
   \<and> generateAndStore (db_ok 7) (Array [1, 1]) 3 [] = (Inr \<lparr>id' = None, combination = []\<rparr>, [])
   \<and> \<not> int (map_size (expandItems [1, 1])) < 2
   \<and> fst (generateAndStore (db_ok 7) (Array [1, 1]) 2 []) \<noteq> Inr \<lparr>id' = None, combination = []\<rparr>
   \<and> length [1, 1 :: int] \<le> 65536
   \<and> map_size (expandItems [1, 1]) = 2"
proof -
  let ?d = "db_ok 7"
  have n: "[1, 1] \<noteq> ([] :: int list)" by simp
  have l3: "(1::int) \<le> 3" and l2: "(1::int) \<le> 2" by simp_all
  have b: "length [1, 1 :: int] \<le> 65536" by simp
  note A = generateAndStore_empty_result[OF n l3, of ?d "[]"]
  note B = generateAndStore_empty_result[OF n l2, of ?d "[]"]
  have s: "map_size (expandItems [1, 1]) = 2"
    using A[THEN conjunct2, THEN conjunct2] b by simp
  have lt: "int (map_size (expandItems [1, 1])) < 3" by (simp add: s)
  have nlt: "\<not> int (map_size (expandItems [1, 1])) < 2" by (simp add: s)
  have "fst (generateAndStore ?d (Array [1, 1]) 3 []) = Inr \<lparr>id' = None, combination = []\<rparr>"
    using A[THEN conjunct1] lt by blast
  moreover have "snd (generateAndStore ?d (Array [1, 1]) 3 []) = []"
    using A[THEN conjunct2, THEN conjunct1] lt by blast
  ultimately have 1: "generateAndStore ?d (Array [1, 1]) 3 []
      = (Inr \<lparr>id' = None, combination = []\<rparr>, [])"
    by (simp add: prod_eq_iff)
  have 2: "fst (generateAndStore ?d (Array [1, 1]) 2 []) \<noteq> Inr \<lparr>id' = None, combination = []\<rparr>"
    using B[THEN conjunct1] nlt by blast
  from n l3 l2 lt 1 nlt 2 b s show ?thesis by blast
qed

theorem generateAndStore_empty_result_counterexample:
  "int (length (nonempty_groups (expandItems [0, 1]))) < 2
   \<and> generateAndStore (db_ok 7) (Array [0, 1]) 2 []
       = (Inr \<lparr>id' = Some 7, combination = []\<rparr>,
          [GetConnection, BeginTransaction, Query (InsertResponse [0, 1] 2),
           Query (InsertItems [(js ''B1'', js ''B'')]), Commit, Release])"
  by code_simp

section \<open>Storage keys\<close>

lemma sort_mset_eq:
  fixes c1 c2 :: "combo"
  assumes "mset c1 = mset c2"
  shows "sort c1 = sort c2"
proof (rule properties_for_sort)
  show "mset (sort c2) = mset c1" using assms by simp
  show "sorted (sort c2)" by simp
qed

lemma sent_rows_append: "sent_rows (a @ b) = sent_rows a @ sent_rows b"
  by (induction a rule: sent_rows.induct) simp_all

lemma bind_io_Inr:
  assumes "bind_io m f tr = (Inr y, tr')"
  obtains x t1 where "m tr = (Inr x, t1)" and "f x t1 = (Inr y, tr')"
proof -
  obtain r t1 where m: "m tr = (r, t1)" by (cases "m tr")
  show ?thesis
  proof (cases r)
    case (Inl e)
    with assms m show ?thesis by (simp add: bind_io_def)
  next
    case (Inr x)
    with assms m that show ?thesis by (simp add: bind_io_def)
  qed
qed

lemma call_conn_Inr: "call_conn d c tr = (Inr u, tr') \<Longrightarrow> tr' = tr @ [c]"
  by (auto simp: call_conn_def split: option.splits)

lemma insertCombinations_loop_rows:
  "insertCombinations_loop d responseId combos i tr = (Inr u, tr') \<Longrightarrow>
   sent_rows tr' = sent_rows tr @ combination_rows responseId (drop i combos)"
proof (induction d responseId combos i tr rule: insertCombinations_loop.induct)
  case (1 d responseId combos i tr)
  let ?q = "Query (InsertCombinations (combination_rows responseId (take CHUNK (drop i combos))))"
  show ?case
  proof (cases "i < length combos")
    case False
    with "1.prems" show ?thesis
      by (simp add: insertCombinations_loop.simps[of d responseId combos i tr]
            combination_rows_def)
  next
    case True
    show ?thesis
    proof (cases "rejects d tr ?q")
      case (Some m)
      then have "call_conn d ?q tr = (Inl (DbError m), tr @ [?q])" by (rule call_conn_fails)
      with "1.prems" True show ?thesis
        by (simp add: insertCombinations_loop.simps[of d responseId combos i tr] Let_def)
    next
      case None
      then have c: "call_conn d ?q tr = (Inr (), tr @ [?q])" by (rule call_conn_ok)
      from "1.prems" True c
      have "insertCombinations_loop d responseId combos (i + CHUNK) (tr @ [?q]) = (Inr u, tr')"
        by (simp add: insertCombinations_loop.simps[of d responseId combos i tr] Let_def)
      then have "sent_rows tr' = sent_rows (tr @ [?q])
                   @ combination_rows responseId (drop (i + CHUNK) combos)"
        by (rule "1.IH"[OF True refl refl c[symmetric] refl])
      moreover have "take CHUNK (drop i combos) @ drop (i + CHUNK) combos = drop i combos"
        by (metis add.commute append_take_drop_id drop_drop)
      then have "combination_rows responseId (take CHUNK (drop i combos))
                   @ combination_rows responseId (drop (i + CHUNK) combos)
                 = combination_rows responseId (drop i combos)"
        unfolding combination_rows_def map_append[symmetric] by (rule arg_cong)
      ultimately show ?thesis
        by (simp add: sent_rows_append)
    qed
  qed
qed

lemma insertCombinations_rows:
  assumes "insertCombinations d responseId combos tr = (Inr u, tr')"
  shows "sent_rows tr' = sent_rows tr @ combination_rows responseId combos"
proof (cases "combos = []")
  case True
  with assms show ?thesis
    by (simp add: insertCombinations_def return_io_def combination_rows_def)
next
  case False
  with assms have "insertCombinations_loop d responseId combos 0 tr = (Inr u, tr')"
    by (simp add: insertCombinations_def)
  from insertCombinations_loop_rows[OF this] show ?thesis by simp
qed

lemma insertResponse_rows:
  "insertResponse d payload tr = (Inr responseId, tr') \<Longrightarrow> sent_rows tr' = sent_rows tr"
  by (auto simp: insertResponse_def call_conn_def sent_rows_append split: option.splits)

lemma insertItems_rows:
  "insertItems d groups tr = (Inr u, tr') \<Longrightarrow> sent_rows tr' = sent_rows tr"
  by (auto simp: insertItems_def Let_def return_io_def call_conn_def sent_rows_append
      split: option.splits if_splits)

lemma transaction_body_rows:
  assumes "bind_io (insertResponse d payload) (\<lambda>responseId.
           bind_io (insertItems d groups) (\<lambda>_.
           bind_io (insertCombinations d responseId allCombos) (\<lambda>_.
           return_io responseId))) tr = (Inr rid, tr')"
  shows "sent_rows tr' = sent_rows tr @ combination_rows rid allCombos"
proof -
  from assms obtain r1 t1 where 1: "insertResponse d payload tr = (Inr r1, t1)"
    and b1: "bind_io (insertItems d groups) (\<lambda>_.
           bind_io (insertCombinations d r1 allCombos) (\<lambda>_.
           return_io r1)) t1 = (Inr rid, tr')"
    by (rule bind_io_Inr)
  from b1 obtain u2 t2 where 2: "insertItems d groups t1 = (Inr u2, t2)"
    and b2: "bind_io (insertCombinations d r1 allCombos) (\<lambda>_. return_io r1) t2 = (Inr rid, tr')"
    by (rule bind_io_Inr)
  from b2 obtain u3 t3 where 3: "insertCombinations d r1 allCombos t2 = (Inr u3, t3)"
    and b3: "return_io r1 t3 = (Inr rid, tr')"
    by (rule bind_io_Inr)
  from b3 have e: "r1 = rid" "t3 = tr'" by (simp_all add: return_io_def)
  show ?thesis
    using insertResponse_rows[OF 1] insertItems_rows[OF 2] insertCombinations_rows[OF 3] e
    by simp
qed

lemma withTransaction_Inr:
  assumes "withTransaction d f tr = (Inr x, tr')"
  shows "\<exists>t1. f (tr @ [GetConnection, BeginTransaction]) = (Inr x, t1)
              \<and> tr' = t1 @ [Commit, Release]"
  using assms
  by (auto simp: withTransaction_def bind_io_def return_io_def call_conn_def
      split: option.splits sum.splits prod.splits)

lemma withTransaction_rows:
  assumes "withTransaction d
        (bind_io (insertResponse d payload) (\<lambda>responseId.
         bind_io (insertItems d groups) (\<lambda>_.
         bind_io (insertCombinations d responseId allCombos) (\<lambda>_.
         return_io responseId)))) tr = (Inr rid, tr')"
  shows "sent_rows tr' = sent_rows tr @ combination_rows rid allCombos"
proof -
  let ?f = "bind_io (insertResponse d payload) (\<lambda>responseId.
         bind_io (insertItems d groups) (\<lambda>_.
         bind_io (insertCombinations d responseId allCombos) (\<lambda>_.
         return_io responseId)))"
  from withTransaction_Inr[where f = ?f, OF assms]
  obtain t1 where f: "?f (tr @ [GetConnection, BeginTransaction]) = (Inr rid, t1)"
    and t: "tr' = t1 @ [Commit, Release]"
    by blast
  from transaction_body_rows[OF f] t show ?thesis
    by (simp add: sent_rows_append)
qed

lemma generateAndStore_stored:
  assumes "fst (generateAndStore d (Array xs) length' tr) = Inr r" and "id' r = Some rid"
  shows "generateValidCombinations (expandItems xs) length' = Inr (combination r)
       \<and> sent_rows (snd (generateAndStore d (Array xs) length' tr))
           = sent_rows tr @ combination_rows rid (combination r)"
proof -
  have l: "\<not> length' < 1"
    using assms(1) by (auto simp: generateAndStore_rejects_length)
  have n: "xs \<noteq> []"
    using assms(1) l by (auto simp: generateAndStore_rejects_items)
  have s: "\<not> int (map_size (expandItems xs)) < length'"
    using assms l n by (auto simp: generateAndStore_short_circuit)
  have k: "0 \<le> length'" using l by simp
  obtain allCombos where g: "generateValidCombinations (expandItems xs) length' = Inr allCombos"
    using generateValidCombinations_keys[OF k] by blast
  let ?T = "withTransaction d
        (bind_io (insertResponse d (xs, length')) (\<lambda>responseId.
         bind_io (insertItems d (expandItems xs)) (\<lambda>_.
         bind_io (insertCombinations d responseId allCombos) (\<lambda>_.
         return_io responseId))))"
  have eq: "generateAndStore d (Array xs) length' tr
      = bind_io ?T (\<lambda>result. return_io \<lparr>id' = Some result, combination = allCombos\<rparr>) tr"
    using l n s g by (simp add: generateAndStore_def Let_def)
  obtain tr' where res: "generateAndStore d (Array xs) length' tr = (Inr r, tr')"
    using assms(1) by (cases "generateAndStore d (Array xs) length' tr") simp
  from res[unfolded eq] obtain x t1 where t: "?T tr = (Inr x, t1)"
    and ret: "return_io \<lparr>id' = Some x, combination = allCombos\<rparr> t1 = (Inr r, tr')"
    by (rule bind_io_Inr)
  from ret have r: "r = \<lparr>id' = Some x, combination = allCombos\<rparr>" and t1: "t1 = tr'"
    by (simp_all add: return_io_def)
  have x: "x = rid" using r assms(2) by simp
  have "sent_rows t1 = sent_rows tr @ combination_rows x allCombos"
    by (rule withTransaction_rows[OF t])
  then show ?thesis
    using g r t1 x res by simp
qed

text \<open>
  Claim C8.  The key under which \<open>insertCombinations\<close> stores a combination is its item
  labels sorted and joined with \<open>|\<close>, so two combinations with the same multiset of
  item labels get the same key.  A successful \<open>insertCombinations\<close> has sent, over all
  its queries, one row per combination passed in, in order, each under that key; and a
  \<open>generateAndStore\<close> that returns an identifier returns the full list that
  \<open>generateValidCombinations\<close> produced and has sent one such row for each of its
  combinations, whether or not their keys coincide.
\<close>

theorem combination_key_permutations:
  "(mset c1 = mset c2 \<longrightarrow> combination_key c1 = combination_key c2)
   \<and> (fst (insertCombinations d responseId combos tr) = Inr () \<longrightarrow>
        sent_rows (snd (insertCombinations d responseId combos tr))
          = sent_rows tr @ map (\<lambda>c. (responseId, join (js ''|'') (sort c), c)) combos)
   \<and> (\<forall>r rid. fst (generateAndStore d (Array xs) length' tr) = Inr r \<and> id' r = Some rid
          \<longrightarrow> generateValidCombinations (expandItems xs) length' = Inr (combination r)
            \<and> sent_rows (snd (generateAndStore d (Array xs) length' tr))
                = sent_rows tr
                  @ map (\<lambda>c. (rid, join (js ''|'') (sort c), c)) (combination r))"
proof -
  have rows: "\<And>rid cs. combination_rows rid cs
                = map (\<lambda>c. (rid, join (js ''|'') (sort c), c)) cs"
    by (simp add: combination_rows_def combination_key_def)
  have 1: "mset c1 = mset c2 \<longrightarrow> combination_key c1 = combination_key c2"
    by (auto simp: combination_key_def dest: sort_mset_eq)
  have 2: "fst (insertCombinations d responseId combos tr) = Inr () \<longrightarrow>
        sent_rows (snd (insertCombinations d responseId combos tr))
          = sent_rows tr @ map (\<lambda>c. (responseId, join (js ''|'') (sort c), c)) combos"
  proof
    assume "fst (insertCombinations d responseId combos tr) = Inr ()"
    then have "insertCombinations d responseId combos tr
                 = (Inr (), snd (insertCombinations d responseId combos tr))"
      by (simp add: prod_eq_iff)
    from insertCombinations_rows[OF this] show
      "sent_rows (snd (insertCombinations d responseId combos tr))
          = sent_rows tr @ map (\<lambda>c. (responseId, join (js ''|'') (sort c), c)) combos"
      by (simp only: rows)
  qed
  have 3: "\<forall>r rid. fst (generateAndStore d (Array xs) length' tr) = Inr r \<and> id' r = Some rid
          \<longrightarrow> generateValidCombinations (expandItems xs) length' = Inr (combination r)
            \<and> sent_rows (snd (generateAndStore d (Array xs) length' tr))
                = sent_rows tr
                  @ map (\<lambda>c. (rid, join (js ''|'') (sort c), c)) (combination r)"
  proof (intro allI impI)
    fix r rid
    assume "fst (generateAndStore d (Array xs) length' tr) = Inr r \<and> id' r = Some rid"
    then have a: "fst (generateAndStore d (Array xs) length' tr) = Inr r"
      and b: "id' r = Some rid"
      by simp_all
    from generateAndStore_stored[OF a b] show
      "generateValidCombinations (expandItems xs) length' = Inr (combination r)
            \<and> sent_rows (snd (generateAndStore d (Array xs) length' tr))
                = sent_rows tr
                  @ map (\<lambda>c. (rid, join (js ''|'') (sort c), c)) (combination r)"
      by (simp only: rows)
  qed
  show ?thesis
    by (rule conjI[OF 1 conjI[OF 2 3]])
qed

theorem combination_key_permutations_witness:
  "mset [js ''B1'', js ''A1''] = mset [js ''A1'', js ''B1'']
   \<and> [js ''B1'', js ''A1''] \<noteq> [js ''A1'', js ''B1'']
   \<and> combination_key [js ''B1'', js ''A1''] = combination_key [js ''A1'', js ''B1'']
   \<and> fst (insertCombinations (db_ok 7) 7 [[js ''B1'', js ''A1''], [js ''A1'', js ''B1'']] [])
        = Inr ()
   \<and> sent_rows (snd (insertCombinations (db_ok 7) 7
                       [[js ''B1'', js ''A1''], [js ''A1'', js ''B1'']] []))
        = [(7, js ''A1|B1'', [js ''B1'', js ''A1'']), (7, js ''A1|B1'', [js ''A1'', js ''B1''])]
   \<and> fst (generateAndStore (db_ok 7) (Array [2, 1]) 1 [])
        = Inr \<lparr>id' = Some 7, combination = [[js ''A1''], [js ''A2''], [js ''B1'']]\<rparr>
   \<and> generateValidCombinations (expandItems [2, 1]) 1
        = Inr [[js ''A1''], [js ''A2''], [js ''B1'']]
   \<and> sent_rows (snd (generateAndStore (db_ok 7) (Array [2, 1]) 1 []))
        = [(7, js ''A1'', [js ''A1'']), (7, js ''A2'', [js ''A2'']), (7, js ''B1'', [js ''B1''])]"
proof -
  let ?c1 = "[js ''B1'', js ''A1'']"
  let ?c2 = "[js ''A1'', js ''B1'']"
  let ?all = "[[js ''A1''], [js ''A2''], [js ''B1'']]"
  let ?r = "\<lparr>id' = Some 7, combination = ?all\<rparr>"
  note T = combination_key_permutations[of ?c1 ?c2 "db_ok 7" 7 "[?c1, ?c2]" "[]" "[2, 1]" 1]
  have m: "mset ?c1 = mset ?c2" by simp
  have d: "?c1 \<noteq> ?c2" by (simp add: js_def)
  have 1: "combination_key ?c1 = combination_key ?c2"
    using T[THEN conjunct1] m by blast
  have i: "fst (insertCombinations (db_ok 7) 7 [?c1, ?c2] []) = Inr ()"
    by code_simp
  have e: "sent_rows [] @ map (\<lambda>c. (7, join (js ''|'') (sort c), c)) [?c1, ?c2]
        = [(7, js ''A1|B1'', ?c1), (7, js ''A1|B1'', ?c2)]"
    by code_simp
  have 2: "sent_rows (snd (insertCombinations (db_ok 7) 7 [?c1, ?c2] []))
        = [(7, js ''A1|B1'', ?c1), (7, js ''A1|B1'', ?c2)]"
    using T[THEN conjunct2, THEN conjunct1, rule_format, OF i] e by (rule trans)
  have g: "fst (generateAndStore (db_ok 7) (Array [2, 1]) 1 []) = Inr ?r"
    by code_simp
  have s: "id' ?r = Some 7" by simp
  note G = T[THEN conjunct2, THEN conjunct2, rule_format, OF conjI[OF g s]]
  have 3: "generateValidCombinations (expandItems [2, 1]) 1 = Inr ?all"
    using G[THEN conjunct1] by simp
  have e': "sent_rows [] @ map (\<lambda>c. (7, join (js ''|'') (sort c), c)) (combination ?r)
        = [(7, js ''A1'', [js ''A1'']), (7, js ''A2'', [js ''A2'']), (7, js ''B1'', [js ''B1''])]"
    by code_simp
  have 4: "sent_rows (snd (generateAndStore (db_ok 7) (Array [2, 1]) 1 []))
        = [(7, js ''A1'', [js ''A1'']), (7, js ''A2'', [js ''A2'']), (7, js ''B1'', [js ''B1''])]"
    using G[THEN conjunct2] e' by (rule trans)
  from m d 1 i 2 g 3 4 show ?thesis by blast
qed

end
